theory Spec2Isabelle
  imports Complex_Main "HOL-Library.Word"
begin

unbundle bit_operations_syntax

section \<open>Data model of \<open>src/lib/util.ts\<close>\<close>

text \<open>
  An \<open>ArrayBuffer\<close> and a \<open>Uint8Array\<close> are sequences of bytes; \<open>byteLength\<close> is the
  length of the list. A JavaScript string is a sequence of 16-bit code units
  (\<open>charCodeAt\<close> reads one, \<open>length\<close> counts them).
\<close>

type_synonym byte = "8 word"
type_synonym ArrayBuffer = "byte list"
type_synonym Uint8Array = "byte list"
type_synonym js_string = "16 word list"

text \<open>
  The object literal built in the loop of \<open>Util.chunk\<close>:
  \<open>{ __peerData: this._dataCount, n: index, data: b, total }\<close>.
  The field \<open>__peerData\<close> is written \<open>peerData\<close>.
\<close>

record chunk_record =
  peerData :: nat
  n :: nat
  data :: ArrayBuffer
  total :: nat

text \<open>
  The mutable part of a \<open>Util\<close> instance: \<open>private _dataCount: number = 1\<close>.
  The other fields are read-only. \<open>chunk\<close> reads the MTU as \<open>util.chunkedMTU\<close>, from
  the singleton that the module exports, where it is \<open>readonly chunkedMTU = 16300\<close>.
\<close>

record Util =
  dataCount :: nat

definition Util_new :: Util where
  "Util_new = \<lparr>dataCount = 1\<rparr>"

definition chunkedMTU :: nat where
  "chunkedMTU = 16300"

section \<open>\<open>Util.chunk\<close>\<close>

text \<open>
  \<open>Math.ceil(size / util.chunkedMTU)\<close> on natural numbers. The JavaScript division is
  a floating-point one; for a byte length (below \<open>2^53\<close>) and the divisor 16300 the
  rounded quotient lies strictly between the same two integers as the exact one unless
  the division is exact, so \<open>Math.ceil\<close> returns the exact ceiling
  (\<open>math_ceil_div_real\<close> below relates the definition to the ceiling of the real quotient).
\<close>

definition math_ceil_div :: "nat \<Rightarrow> nat \<Rightarrow> nat" where
  "math_ceil_div a b = (if a mod b = 0 then a div b else a div b + 1)"

text \<open>
  \<open>blob.slice(start, end)\<close> for \<open>0 \<le> start\<close> and \<open>0 \<le> end\<close>: the bytes from \<open>start\<close>
  up to, not including, \<open>end\<close>, both clamped to the length of the buffer; empty when
  \<open>end \<le> start\<close>.
\<close>

definition slice :: "ArrayBuffer \<Rightarrow> nat \<Rightarrow> nat \<Rightarrow> ArrayBuffer" where
  "slice blob start end' = take (end' - start) (drop start blob)"

text \<open>
  \<open>this._dataCount++\<close>. The counter is a JavaScript \<open>number\<close>, an IEEE-754 double:
  it holds every integer up to \<open>2^53\<close> exactly, and \<open>2^53 + 1\<close> rounds back to \<open>2^53\<close>
  (ties to even). From its initial value 1 the counter only takes values in
  \<open>1 .. 2^53\<close> (\<open>chunk_dataCount_bound\<close> below), where the increment is as defined here.
\<close>

definition js_increment :: "nat \<Rightarrow> nat" where
  "js_increment d = (if d < 2 ^ 53 then d + 1 else d)"

text \<open>
  The \<open>while (start < size)\<close> loop of \<open>chunk\<close>; \<open>chunks.push(chunk)\<close> appends at the
  end. \<open>dc\<close> is \<open>this._dataCount\<close>, which the loop reads and never writes.
\<close>

function chunk_loop ::
  "ArrayBuffer \<Rightarrow> nat \<Rightarrow> nat \<Rightarrow> nat \<Rightarrow> nat \<Rightarrow> nat \<Rightarrow> chunk_record list \<Rightarrow> chunk_record list" where
  "chunk_loop blob size' total' dc index start chunks =
     (if start < size' then
        let end' = min size' (start + chunkedMTU);
            b = slice blob start end';
            chunk = \<lparr>peerData = dc, n = index, data = b, total = total'\<rparr>
        in chunk_loop blob size' total' dc (index + 1) end' (chunks @ [chunk])
      else chunks)"
  by pat_completeness auto
termination
  by (relation "measure (\<lambda>(blob, size', total', dc, index, start, chunks). size' - start)")
     (auto simp: chunkedMTU_def)

declare chunk_loop.simps [simp del]

text \<open>
  \<open>chunk(blob)\<close>: the returned array and the instance after the call
  (\<open>this._dataCount++\<close> runs once, after the loop).
\<close>

definition chunk :: "Util \<Rightarrow> ArrayBuffer \<Rightarrow> chunk_record list \<times> Util" where
  "chunk this blob =
     (let size' = length blob;
          total' = math_ceil_div size' chunkedMTU;
          chunks = chunk_loop blob size' total' (dataCount this) 0 0 []
      in (chunks, this\<lparr>dataCount := js_increment (dataCount this)\<rparr>))"

text \<open>Successive calls of \<open>chunk\<close> on one instance, one per buffer of the list.\<close>

fun chunk_calls :: "Util \<Rightarrow> ArrayBuffer list \<Rightarrow> chunk_record list list \<times> Util" where
  "chunk_calls this [] = ([], this)"
| "chunk_calls this (blob # blobs) =
     (case chunk this blob of (chunks, this') \<Rightarrow>
        (case chunk_calls this' blobs of (rest, this'') \<Rightarrow> (chunks # rest, this'')))"

text \<open>
  The record that the loop builds in its \<open>j\<close>-th round, as a function of \<open>j\<close>
  (used to state what the loop returns).
\<close>

definition chunk_at :: "ArrayBuffer \<Rightarrow> nat \<Rightarrow> nat \<Rightarrow> nat \<Rightarrow> chunk_record" where
  "chunk_at blob total' dc j =
     \<lparr>peerData = dc, n = j, data = take chunkedMTU (drop (j * chunkedMTU) blob), total = total'\<rparr>"

section \<open>\<open>concatArrayBuffers\<close>\<close>

datatype js_error = RangeError

text \<open>
  \<open>result.set(buf, offset)\<close> on typed arrays: copies \<open>buf\<close> into \<open>result\<close> from index
  \<open>offset\<close>; throws a \<open>RangeError\<close> when \<open>buf\<close> does not fit.
\<close>

definition typed_array_set :: "Uint8Array \<Rightarrow> Uint8Array \<Rightarrow> nat \<Rightarrow> js_error + Uint8Array" where
  "typed_array_set target source offset =
     (if length target < offset + length source then Inl RangeError
      else Inr (take offset target @ source @ drop (offset + length source) target))"

text \<open>The first loop: \<open>size += buf.byteLength\<close>.\<close>

fun size_loop :: "Uint8Array list \<Rightarrow> nat \<Rightarrow> nat" where
  "size_loop [] size' = size'"
| "size_loop (buf # bufs) size' = size_loop bufs (size' + length buf)"

text \<open>The second loop: \<open>result.set(buf, offset); offset += buf.byteLength\<close>.\<close>

fun copy_loop :: "Uint8Array list \<Rightarrow> Uint8Array \<Rightarrow> nat \<Rightarrow> js_error + Uint8Array" where
  "copy_loop [] result offset = Inr result"
| "copy_loop (buf # bufs) result offset =
     (case typed_array_set result buf offset of
        Inl e \<Rightarrow> Inl e
      | Inr result' \<Rightarrow> copy_loop bufs result' (offset + length buf))"

text \<open>\<open>new Uint8Array(size)\<close> is \<open>size\<close> zero bytes.\<close>

definition concatArrayBuffers :: "Uint8Array list \<Rightarrow> js_error + Uint8Array" where
  "concatArrayBuffers bufs =
     (let size' = size_loop bufs 0;
          result = replicate size' 0
      in copy_loop bufs result 0)"

section \<open>\<open>Util.binaryStringToArrayBuffer\<close>\<close>

text \<open>
  The \<open>for\<close> loop: \<open>byteArray[i] = binary.charCodeAt(i) & 0xff\<close>. An indexed write
  outside a typed array is ignored, as \<open>list_update\<close> does.
\<close>

function bs_loop :: "js_string \<Rightarrow> Uint8Array \<Rightarrow> nat \<Rightarrow> Uint8Array" where
  "bs_loop binary byteArray i =
     (if i < length binary
      then bs_loop binary (byteArray[i := ucast (binary ! i AND 0xff)]) (i + 1)
      else byteArray)"
  by pat_completeness auto
termination
  by (relation "measure (\<lambda>(binary, byteArray, i). length binary - i)") auto

declare bs_loop.simps [simp del]

definition binaryStringToArrayBuffer :: "js_string \<Rightarrow> Uint8Array" where
  "binaryStringToArrayBuffer binary = bs_loop binary (replicate (length binary) 0) 0"

section \<open>\<open>Util.validateId\<close>\<close>

text \<open>
  The regular expression literal \<open>/^[A-Za-z0-9]+(?:[ _-][A-Za-z0-9]+)*$/\<close>: character
  classes (single characters and ranges), sequence, \<open>*\<close> and \<open>+\<close>; the group
  \<open>(?:...)\<close> only brackets. \<open>Alt\<close>, \<open>Empty\<close> and \<open>Fail\<close> do not occur in the literal;
  the matcher below needs them for its intermediate expressions.
\<close>

datatype class_item = ClassChar char | ClassRange char char

datatype regex =
    Class "class_item list"
  | Seq regex regex
  | Star regex
  | Plus regex
  | Alt regex regex
  | Empty
  | Fail

text \<open>A class matches one code unit: a listed character, or one inside a listed range.\<close>

fun in_item :: "16 word \<Rightarrow> class_item \<Rightarrow> bool" where
  "in_item c (ClassChar a) = (c = of_char a)"
| "in_item c (ClassRange a b) = (of_char a \<le> c \<and> c \<le> of_char b)"

definition in_class :: "16 word \<Rightarrow> class_item list \<Rightarrow> bool" where
  "in_class c items = list_ex (in_item c) items"

text \<open>
  \<open>regex.test(s)\<close> for an expression anchored at both ends (\<open>^ ... $\<close>, no flags): the
  whole string has to match. The matcher consumes the string one code unit at a time,
  rewriting the expression to what may still follow (\<open>deriv\<close>), and accepts when the
  expression left at the end matches the empty string (\<open>nullable\<close>).
\<close>

fun nullable :: "regex \<Rightarrow> bool" where
  "nullable (Class items) = False"
| "nullable (Seq r s) = (nullable r \<and> nullable s)"
| "nullable (Star r) = True"
| "nullable (Plus r) = nullable r"
| "nullable (Alt r s) = (nullable r \<or> nullable s)"
| "nullable Empty = True"
| "nullable Fail = False"

fun deriv :: "16 word \<Rightarrow> regex \<Rightarrow> regex" where
  "deriv c (Class items) = (if in_class c items then Empty else Fail)"
| "deriv c (Seq r s) =
     (if nullable r then Alt (Seq (deriv c r) s) (deriv c s) else Seq (deriv c r) s)"
| "deriv c (Star r) = Seq (deriv c r) (Star r)"
| "deriv c (Plus r) = Seq (deriv c r) (Star r)"
| "deriv c (Alt r s) = Alt (deriv c r) (deriv c s)"
| "deriv c Empty = Fail"
| "deriv c Fail = Fail"

definition regex_test :: "regex \<Rightarrow> js_string \<Rightarrow> bool" where
  "regex_test r s = nullable (foldl (\<lambda>r c. deriv c r) r s)"

text \<open>The parts of the literal: \<open>[A-Za-z0-9]\<close>, \<open>[ _-]\<close>, and the whole.\<close>

definition alnum :: regex where
  "alnum = Class [ClassRange CHR ''A'' CHR ''Z'', ClassRange CHR ''a'' CHR ''z'',
     ClassRange CHR ''0'' CHR ''9'']"

definition separator :: regex where
  "separator = Class [ClassChar CHR '' '', ClassChar CHR ''_'', ClassChar CHR ''-'']"

definition id_regex :: regex where
  "id_regex = Seq (Plus alnum) (Star (Seq separator (Plus alnum)))"

text \<open>\<open>return !id || /.../.test(id)\<close>: the empty string is the only falsy string.\<close>

definition validateId :: "js_string \<Rightarrow> bool" where
  "validateId id' = (id' = [] \<or> regex_test id_regex id')"

text \<open>
  The set of strings that an expression stands for, the usual meaning of regular
  expressions: the matcher is checked against it in \<open>regex_test_denote\<close>.
\<close>

definition cat_lang :: "js_string set \<Rightarrow> js_string set \<Rightarrow> js_string set" where
  "cat_lang A B = {u @ v | u v. u \<in> A \<and> v \<in> B}"

inductive_set iter_lang :: "js_string set \<Rightarrow> js_string set" for A :: "js_string set" where
  iter_nil: "[] \<in> iter_lang A"
| iter_more: "u \<in> A \<Longrightarrow> v \<in> iter_lang A \<Longrightarrow> u @ v \<in> iter_lang A"

fun denote :: "regex \<Rightarrow> js_string set" where
  "denote (Class items) = {[c] | c. in_class c items}"
| "denote (Seq r s) = cat_lang (denote r) (denote s)"
| "denote (Star r) = iter_lang (denote r)"
| "denote (Plus r) = cat_lang (denote r) (iter_lang (denote r))"
| "denote (Alt r s) = denote r \<union> denote s"
| "denote Empty = {[]}"
| "denote Fail = {}"

text \<open>
  The description of valid identifiers in words: the string, cut at every space,
  underscore and hyphen, falls into groups (\<open>k\<close> separators give \<open>k + 1\<close> groups), and
  every group is a non-empty run of ASCII letters and digits. (\<open>groups\<close> never returns
  the empty list, so the second branch of its \<open>case\<close> is never taken.)
\<close>

definition is_alnum :: "16 word \<Rightarrow> bool" where
  "is_alnum c = ((0x41 \<le> c \<and> c \<le> 0x5A) \<or> (0x61 \<le> c \<and> c \<le> 0x7A) \<or> (0x30 \<le> c \<and> c \<le> 0x39))"

definition is_separator :: "16 word \<Rightarrow> bool" where
  "is_separator c = (c = 0x20 \<or> c = 0x5F \<or> c = 0x2D)"

fun groups :: "js_string \<Rightarrow> js_string list" where
  "groups [] = [[]]"
| "groups (c # cs) =
     (if is_separator c then [] # groups cs
      else (case groups cs of g # gs \<Rightarrow> (c # g) # gs | [] \<Rightarrow> [[c]]))"

definition alnum_groups :: "js_string \<Rightarrow> bool" where
  "alnum_groups s = list_all (\<lambda>g. g \<noteq> [] \<and> list_all is_alnum g) (groups s)"

text \<open>A string literal as a JavaScript string.\<close>

definition js_str :: "string \<Rightarrow> js_string" where
  "js_str cs = map of_char cs"

section \<open>The error that the specification names for \<open>fragment\<close>\<close>

text \<open>
  The specification gives its \<open>fragment\<close> an \<open>mtu\<close> argument and the failure
  \<open>InvalidConfiguration\<close>. In the source, \<open>chunk(blob)\<close> declares the single parameter
  \<open>blob\<close>, reads the MTU from the constant \<open>util.chunkedMTU\<close> and has no \<open>throw\<close>.
  A JavaScript call drops the arguments beyond the declared parameters, so a call
  \<open>chunk(blob, mtu)\<close> runs \<open>chunk(blob)\<close>: \<open>chunk_with_mtu\<close> is that call, with the outcome
  in the sum type in which the failure of the specification could be told from a result.
\<close>

datatype spec_error = InvalidConfiguration

definition chunk_with_mtu ::
  "Util \<Rightarrow> ArrayBuffer \<Rightarrow> int \<Rightarrow> spec_error + (chunk_record list \<times> Util)" where
  "chunk_with_mtu this blob mtu = Inr (chunk this blob)"

section \<open>Facts about the chunk loop\<close>

lemma chunkedMTU_pos: "0 < chunkedMTU"
  by (simp add: chunkedMTU_def)

lemma math_ceil_div_real:
  assumes "0 < b"
  shows "math_ceil_div a b = nat \<lceil>real a / real b\<rceil>"
proof -
  have "real a = real (a div b) * real b + real (a mod b)"
    by (metis of_nat_add of_nat_mult div_mult_mod_eq)
  then have split: "real a / real b = real (a div b) + real (a mod b) / real b"
    using assms by (simp add: field_simps)
  have lt: "real (a mod b) / real b < 1" using assms by simp
  have "\<lceil>real a / real b\<rceil> = int (math_ceil_div a b)"
  proof (cases "a mod b = 0")
    case True
    then show ?thesis using split by (simp add: math_ceil_div_def)
  next
    case False
    then have "0 < real (a mod b) / real b" using assms by simp
    then have "\<lceil>real a / real b\<rceil> = int (a div b) + 1"
      using lt split by (intro ceiling_unique) simp_all
    then show ?thesis using False by (simp add: math_ceil_div_def)
  qed
  then show ?thesis by simp
qed

lemma less_math_ceil_div:
  assumes "0 < b"
  shows "i < math_ceil_div a b \<longleftrightarrow> i * b < a"
proof -
  have a: "a = a div b * b + a mod b" by simp
  have m: "a mod b < b" using assms by simp
  show ?thesis
  proof (cases "a mod b = 0")
    case True
    then have "a = a div b * b" using a by simp
    then have "i * b < a \<longleftrightarrow> i * b < a div b * b" by simp
    also have "\<dots> \<longleftrightarrow> i < a div b" using assms by simp
    finally show ?thesis using True by (simp add: math_ceil_div_def)
  next
    case False
    have "i * b < a \<longleftrightarrow> i \<le> a div b"
    proof
      assume "i * b < a"
      then have "i * b < a div b * b + b" using a m by linarith
      then have "i * b < Suc (a div b) * b" by simp
      then have "i < Suc (a div b)" unfolding mult_less_cancel2 by simp
      then show "i \<le> a div b" by simp
    next
      assume "i \<le> a div b"
      then have "i * b \<le> a div b * b" by simp
      moreover have "a div b * b < a" using a False by linarith
      ultimately show "i * b < a" by (rule le_less_trans)
    qed
    then show ?thesis using False by (auto simp add: math_ceil_div_def)
  qed
qed

lemma chunk_loop_done: "size' \<le> start \<Longrightarrow> chunk_loop blob size' t dc i start chunks = chunks"
  by (simp add: chunk_loop.simps)

lemma slice_step:
  "slice blob start (min (length blob) (start + m)) = take m (drop start blob)"
  by (simp add: slice_def min_def)

text \<open>
  What the loop returns when it is entered at the start of round \<open>i\<close>: the records of
  the rounds \<open>i\<close>, \<open>i + 1\<close>, ... up to the ceiling of length over MTU, appended to \<open>chunks\<close>.
\<close>

lemma chunk_loop_closed:
  "chunk_loop blob (length blob) t dc i (i * chunkedMTU) chunks =
     chunks @ map (chunk_at blob t dc) [i ..< math_ceil_div (length blob) chunkedMTU]"
proof (induction "length blob - i * chunkedMTU" arbitrary: i chunks rule: less_induct)
  case less
  let ?m = chunkedMTU and ?L = "length blob"
  let ?k = "math_ceil_div ?L ?m"
  show ?case
  proof (cases "i * ?m < ?L")
    case False
    then have "\<not> i < ?k" by (simp add: less_math_ceil_div chunkedMTU_pos)
    then show ?thesis using False by (simp add: chunk_loop_done)
  next
    case True
    then have ik: "i < ?k" by (simp add: less_math_ceil_div chunkedMTU_pos)
    have unfold: "chunk_loop blob ?L t dc i (i * ?m) chunks =
        chunk_loop blob ?L t dc (Suc i) (min ?L (i * ?m + ?m)) (chunks @ [chunk_at blob t dc i])"
      using True by (subst chunk_loop.simps) (simp add: Let_def slice_step chunk_at_def)
    show ?thesis
    proof (cases "Suc i * ?m \<le> ?L")
      case True
      then have e: "min ?L (i * ?m + ?m) = Suc i * ?m" by simp
      have "?L - Suc i * ?m < ?L - i * ?m" using True chunkedMTU_pos by simp
      from less[OF this] show ?thesis using unfold e ik by (simp add: upt_conv_Cons)
    next
      case False
      then have e: "min ?L (i * ?m + ?m) = ?L" by simp
      from False have "\<not> Suc i < ?k" by (simp add: less_math_ceil_div chunkedMTU_pos)
      with ik have "?k = Suc i" by simp
      then show ?thesis using unfold e by (simp add: chunk_loop_done)
    qed
  qed
qed

lemma chunk_closed:
  "fst (chunk this blob) =
     map (chunk_at blob (math_ceil_div (length blob) chunkedMTU) (dataCount this))
       [0 ..< math_ceil_div (length blob) chunkedMTU]"
  using chunk_loop_closed [of blob _ _ 0 "[]"] by (simp add: chunk_def Let_def)

lemma chunk_state: "snd (chunk this blob) = this\<lparr>dataCount := js_increment (dataCount this)\<rparr>"
  by (simp add: chunk_def Let_def)

lemma concat_slices:
  "concat (map (\<lambda>j. take m (drop (j * m) xs)) [0 ..< k]) = take (k * m) xs"
proof (induction k)
  case 0
  then show ?case by simp
next
  case (Suc k)
  have "Suc k * m = k * m + m" by simp
  then show ?case using Suc by (simp add: take_add del: mult_Suc)
qed

lemma length_le_ceil_mult:
  assumes "0 < b"
  shows "a \<le> math_ceil_div a b * b"
proof -
  have "\<not> math_ceil_div a b < math_ceil_div a b" by simp
  then have "\<not> math_ceil_div a b * b < a" using less_math_ceil_div [OF assms] by blast
  then show ?thesis by simp
qed

lemma concat_chunk_data: "concat (map data (fst (chunk this blob))) = blob"
proof -
  have "map data (fst (chunk this blob)) =
      map (\<lambda>j. take chunkedMTU (drop (j * chunkedMTU) blob))
        [0 ..< math_ceil_div (length blob) chunkedMTU]"
    by (simp add: chunk_closed chunk_at_def comp_def)
  then show ?thesis
    using length_le_ceil_mult [OF chunkedMTU_pos, of "length blob"] by (simp add: concat_slices)
qed

lemma map_n_chunk:
  "map n (fst (chunk this blob)) = [0 ..< math_ceil_div (length blob) chunkedMTU]"
  by (simp add: chunk_closed chunk_at_def comp_def map_idI)

lemma length_chunk:
  "length (fst (chunk this blob)) = math_ceil_div (length blob) chunkedMTU"
  by (simp add: chunk_closed)

lemma map_total_chunk:
  "map total (fst (chunk this blob)) =
     replicate (math_ceil_div (length blob) chunkedMTU) (math_ceil_div (length blob) chunkedMTU)"
  by (simp add: chunk_closed chunk_at_def comp_def map_replicate_const)

lemma map_data_chunk:
  "map data (fst (chunk this blob)) =
     map (\<lambda>j. take chunkedMTU (drop (j * chunkedMTU) blob))
       [0 ..< math_ceil_div (length blob) chunkedMTU]"
  by (simp add: chunk_closed chunk_at_def comp_def)

lemma upt_3: "[0 ..< 3] = [0, 1, 2]"
  by (simp add: upt_rec)

lemma data_nth_chunk:
  assumes "i < length (fst (chunk this B))"
  shows "data (fst (chunk this B) ! i) = take chunkedMTU (drop (i * chunkedMTU) B)"
proof -
  have "data (fst (chunk this B) ! i) = map data (fst (chunk this B)) ! i"
    using assms by simp
  also have "\<dots> = take chunkedMTU (drop (i * chunkedMTU) B)"
    using assms unfolding map_data_chunk by (simp add: length_chunk)
  finally show ?thesis .
qed

lemma payload_length_le:
  assumes "c \<in> set (fst (chunk this B))"
  shows "length (data c) \<le> chunkedMTU"
proof -
  from assms have "data c \<in> set (map data (fst (chunk this B)))" by simp
  then show ?thesis unfolding map_data_chunk by auto
qed

lemma payload_length_full:
  assumes "Suc i < length (fst (chunk this B))"
  shows "length (data (fst (chunk this B) ! i)) = chunkedMTU"
proof -
  from assms have "Suc i < math_ceil_div (length B) chunkedMTU" by (simp add: length_chunk)
  then have "Suc i * chunkedMTU < length B"
    by (simp only: less_math_ceil_div [OF chunkedMTU_pos])
  then show ?thesis using assms by (simp add: data_nth_chunk)
qed

lemma payload_length_last:
  assumes "fst (chunk this B) \<noteq> []"
  shows "0 < length (data (last (fst (chunk this B))))"
proof -
  let ?cs = "fst (chunk this B)"
  from assms have i: "length ?cs - 1 < length ?cs" by simp
  then have "length ?cs - 1 < math_ceil_div (length B) chunkedMTU" by (simp add: length_chunk)
  then have "(length ?cs - 1) * chunkedMTU < length B"
    by (simp only: less_math_ceil_div [OF chunkedMTU_pos])
  then have "0 < length (take chunkedMTU (drop ((length ?cs - 1) * chunkedMTU) B))"
    using chunkedMTU_pos by simp
  then have "0 < length (data (?cs ! (length ?cs - 1)))"
    by (simp only: data_nth_chunk [OF i])
  moreover have "last ?cs = ?cs ! (length ?cs - 1)" using assms by (rule last_conv_nth)
  ultimately show ?thesis by simp
qed

lemma payload_length_sum:
  "sum_list (map (\<lambda>c. length (data c)) (fst (chunk this B))) = length B"
proof -
  have "sum_list (map (\<lambda>c. length (data c)) (fst (chunk this B))) =
      length (concat (map data (fst (chunk this B))))"
    by (simp add: length_concat comp_def)
  then show ?thesis by (simp add: concat_chunk_data)
qed

section \<open>Facts about the transfer-id counter\<close>

lemma map_peerData_chunk:
  "map peerData (fst (chunk this blob)) =
     replicate (math_ceil_div (length blob) chunkedMTU) (dataCount this)"
  by (simp add: chunk_closed chunk_at_def comp_def map_replicate_const)

lemma peerData_chunk:
  assumes "c \<in> set (fst (chunk this blob))"
  shows "peerData c = dataCount this"
proof -
  from assms have "peerData c \<in> set (map peerData (fst (chunk this blob)))" by simp
  then show ?thesis unfolding map_peerData_chunk by simp
qed

lemma dataCount_chunk: "dataCount (snd (chunk this blob)) = js_increment (dataCount this)"
  by (simp add: chunk_state)

lemma chunk_dataCount_bound:
  "dataCount this \<le> 2 ^ 53 \<Longrightarrow> dataCount (snd (chunk this blob)) \<le> 2 ^ 53"
  by (simp add: dataCount_chunk js_increment_def)

lemma chunk_calls_Cons:
  "chunk_calls this (blob # blobs) =
     (fst (chunk this blob) # fst (chunk_calls (snd (chunk this blob)) blobs),
      snd (chunk_calls (snd (chunk this blob)) blobs))"
  by (simp add: split_beta)

lemma length_chunk_calls: "length (fst (chunk_calls this blobs)) = length blobs"
  by (induction blobs arbitrary: this) (simp_all add: split_beta)

lemma dataCount_chunk_calls:
  "dataCount this \<le> 2 ^ 53 \<Longrightarrow>
   dataCount (snd (chunk_calls this blobs)) = min (2 ^ 53) (dataCount this + length blobs)"
proof (induction blobs arbitrary: this)
  case Nil
  then show ?case by simp
next
  case (Cons blob blobs)
  have "dataCount (snd (chunk_calls this (blob # blobs))) =
      dataCount (snd (chunk_calls (snd (chunk this blob)) blobs))"
    by (simp add: split_beta)
  also have "\<dots> = min (2 ^ 53) (dataCount (snd (chunk this blob)) + length blobs)"
    using Cons.prems by (intro Cons.IH chunk_dataCount_bound)
  also have "\<dots> = min (2 ^ 53) (dataCount this + length (blob # blobs))"
    using Cons.prems by (simp add: dataCount_chunk js_increment_def)
  finally show ?case .
qed

lemma chunk_calls_append:
  "chunk_calls this (xs @ ys) =
     (fst (chunk_calls this xs) @ fst (chunk_calls (snd (chunk_calls this xs)) ys),
      snd (chunk_calls (snd (chunk_calls this xs)) ys))"
  by (induction xs arbitrary: this) (simp_all add: split_beta)

text \<open>
  Call number \<open>j\<close> stamps \<open>dataCount + j\<close> as long as every call before it started with
  the counter below \<open>2^53\<close>; the last call of the sequence may start at \<open>2^53\<close> itself.
\<close>

lemma chunk_calls_ids:
  "dataCount this + length blobs \<le> 2 ^ 53 + 1 \<Longrightarrow> j < length blobs \<Longrightarrow>
   c \<in> set (fst (chunk_calls this blobs) ! j) \<Longrightarrow> peerData c = dataCount this + j"
proof (induction blobs arbitrary: this j)
  case Nil
  then show ?case by simp
next
  case (Cons blob blobs)
  show ?case
  proof (cases j)
    case 0
    then show ?thesis using Cons.prems by (simp add: split_beta peerData_chunk)
  next
    case (Suc j')
    let ?next = "snd (chunk this blob)"
    have lt: "dataCount this < 2 ^ 53" using Cons.prems Suc by simp
    then have d: "dataCount ?next = dataCount this + 1"
      by (simp add: dataCount_chunk js_increment_def)
    have "peerData c = dataCount ?next + j'"
    proof (rule Cons.IH)
      show "dataCount ?next + length blobs \<le> 2 ^ 53 + 1" using Cons.prems d by simp
      show "j' < length blobs" using Cons.prems Suc by simp
      show "c \<in> set (fst (chunk_calls ?next blobs) ! j')"
        using Cons.prems Suc by (simp add: split_beta)
    qed
    then show ?thesis using d Suc by simp
  qed
qed

lemma chunk_calls_stuck:
  assumes "dataCount u = 2 ^ 53"
  shows "map (map peerData) (fst (chunk_calls u [[0], [0]])) = [[2 ^ 53], [2 ^ 53]]"
proof -
  have k: "math_ceil_div (Suc 0) chunkedMTU = Suc 0"
    by (simp add: math_ceil_div_def chunkedMTU_def)
  show ?thesis
    by (simp add: split_beta map_peerData_chunk k assms dataCount_chunk js_increment_def)
qed

section \<open>Facts about \<open>binaryStringToArrayBuffer\<close>\<close>

lemma low_byte_unat: "unat (ucast ((c :: 16 word) AND 0xff) :: 8 word) = unat c mod 256"
proof -
  have m: "(0xff :: 16 word) = mask 8" by (simp add: mask_eq_exp_minus_1)
  have "unat (c AND mask 8) = take_bit 8 (unat c)"
    by (simp add: unsigned_take_bit_eq flip: take_bit_eq_mask)
  then have "unat (c AND 0xff) = unat c mod 256"
    by (simp add: m take_bit_eq_mod)
  moreover have "unat (ucast (c AND 0xff) :: 8 word) = take_bit 8 (unat (c AND 0xff))"
    by (simp add: unsigned_ucast_eq)
  ultimately show ?thesis by (simp add: take_bit_eq_mod)
qed

lemma bs_loop_closed:
  "i \<le> length binary \<Longrightarrow> length byteArray = length binary \<Longrightarrow>
   bs_loop binary byteArray i = take i byteArray @ map (\<lambda>c. ucast (c AND 0xff)) (drop i binary)"
proof (induction "length binary - i" arbitrary: i byteArray rule: less_induct)
  case less
  show ?case
  proof (cases "i < length binary")
    case False
    then have "i = length binary" using less.prems by simp
    then show ?thesis using less.prems by (simp add: bs_loop.simps)
  next
    case True
    let ?v = "ucast (binary ! i AND 0xff) :: byte"
    have "bs_loop binary byteArray i = bs_loop binary (byteArray[i := ?v]) (Suc i)"
      using True by (subst bs_loop.simps) simp
    also have "\<dots> = take (Suc i) (byteArray[i := ?v]) @
        map (\<lambda>c. ucast (c AND 0xff)) (drop (Suc i) binary)"
      using True less.prems by (intro less.hyps) simp_all
    also have "take (Suc i) (byteArray[i := ?v]) = take i byteArray @ [?v]"
      using True less.prems by (simp add: take_Suc_conv_app_nth)
    finally show ?thesis using True by (simp add: Cons_nth_drop_Suc [symmetric])
  qed
qed

lemma binaryStringToArrayBuffer_map:
  "binaryStringToArrayBuffer s = map (\<lambda>c. ucast (c AND 0xff)) s"
  by (simp add: binaryStringToArrayBuffer_def bs_loop_closed)

section \<open>Facts about the matcher and the expression of \<open>validateId\<close>\<close>

lemma nullable_denote: "nullable r \<longleftrightarrow> [] \<in> denote r"
  by (induction r) (auto simp: cat_lang_def intro: iter_nil)

lemma cat_lang_Cons:
  "c # w \<in> cat_lang A B \<longleftrightarrow>
     (\<exists>u v. w = u @ v \<and> c # u \<in> A \<and> v \<in> B) \<or> ([] \<in> A \<and> c # w \<in> B)"
proof
  assume "c # w \<in> cat_lang A B"
  then obtain u v where uv: "c # w = u @ v" "u \<in> A" "v \<in> B"
    by (auto simp: cat_lang_def)
  show "(\<exists>u v. w = u @ v \<and> c # u \<in> A \<and> v \<in> B) \<or> ([] \<in> A \<and> c # w \<in> B)"
  proof (cases u)
    case Nil
    then show ?thesis using uv by simp
  next
    case (Cons a u')
    then show ?thesis using uv by auto
  qed
next
  assume "(\<exists>u v. w = u @ v \<and> c # u \<in> A \<and> v \<in> B) \<or> ([] \<in> A \<and> c # w \<in> B)"
  then show "c # w \<in> cat_lang A B"
  proof
    assume "\<exists>u v. w = u @ v \<and> c # u \<in> A \<and> v \<in> B"
    then obtain u v where "w = u @ v" "c # u \<in> A" "v \<in> B" by blast
    then have "(c # u) @ v \<in> cat_lang A B" unfolding cat_lang_def by blast
    then show ?thesis using \<open>w = u @ v\<close> by simp
  next
    assume "[] \<in> A \<and> c # w \<in> B"
    then have "[] @ (c # w) \<in> cat_lang A B" unfolding cat_lang_def by blast
    then show ?thesis by simp
  qed
qed

lemma iter_lang_Cons:
  "c # w \<in> iter_lang A \<longleftrightarrow> (\<exists>u v. w = u @ v \<and> c # u \<in> A \<and> v \<in> iter_lang A)"
proof
  assume "c # w \<in> iter_lang A"
  then show "\<exists>u v. w = u @ v \<and> c # u \<in> A \<and> v \<in> iter_lang A"
  proof (induction "c # w" rule: iter_lang.induct)
    case (iter_more u v)
    show ?case
    proof (cases u)
      case Nil
      then show ?thesis using iter_more by simp
    next
      case (Cons a u')
      then show ?thesis using iter_more by auto
    qed
  qed
next
  assume "\<exists>u v. w = u @ v \<and> c # u \<in> A \<and> v \<in> iter_lang A"
  then obtain u v where "w = u @ v" "c # u \<in> A" "v \<in> iter_lang A" by blast
  then have "(c # u) @ v \<in> iter_lang A" by (intro iter_more)
  then show "c # w \<in> iter_lang A" using \<open>w = u @ v\<close> by simp
qed

lemma denote_deriv: "w \<in> denote (deriv c r) \<longleftrightarrow> c # w \<in> denote r"
proof (induction r arbitrary: w)
  case (Class items)
  then show ?case by simp
next
  case (Seq r s)
  then show ?case by (simp add: cat_lang_Cons nullable_denote) (auto simp: cat_lang_def)
next
  case (Star r)
  then show ?case by (simp add: iter_lang_Cons) (auto simp: cat_lang_def)
next
  case (Plus r)
  have "c # w \<in> cat_lang (denote r) (iter_lang (denote r)) \<longleftrightarrow> c # w \<in> iter_lang (denote r)"
  proof
    assume "c # w \<in> cat_lang (denote r) (iter_lang (denote r))"
    then show "c # w \<in> iter_lang (denote r)"
      by (auto simp: cat_lang_def intro: iter_more)
  next
    assume "c # w \<in> iter_lang (denote r)"
    then obtain u v where "w = u @ v" "c # u \<in> denote r" "v \<in> iter_lang (denote r)"
      unfolding iter_lang_Cons by blast
    then have "(c # u) @ v \<in> cat_lang (denote r) (iter_lang (denote r))"
      unfolding cat_lang_def by blast
    then show "c # w \<in> cat_lang (denote r) (iter_lang (denote r))"
      using \<open>w = u @ v\<close> by simp
  qed
  then show ?case using Plus by (simp add: iter_lang_Cons) (auto simp: cat_lang_def)
next
  case (Alt r s)
  then show ?case by simp
next
  case Empty
  then show ?case by simp
next
  case Fail
  then show ?case by simp
qed

lemma regex_test_denote: "regex_test r s \<longleftrightarrow> s \<in> denote r"
  unfolding regex_test_def
  by (induction s arbitrary: r) (simp_all add: nullable_denote denote_deriv)

lemma in_class_alnum:
  "in_class c [ClassRange CHR ''A'' CHR ''Z'', ClassRange CHR ''a'' CHR ''z'',
     ClassRange CHR ''0'' CHR ''9''] \<longleftrightarrow> is_alnum c"
  by (simp add: in_class_def is_alnum_def)

lemma in_class_separator:
  "in_class c [ClassChar CHR '' '', ClassChar CHR ''_'', ClassChar CHR ''-''] \<longleftrightarrow> is_separator c"
  by (simp add: in_class_def is_separator_def)

lemma denote_alnum: "denote alnum = {[c] | c. is_alnum c}"
  by (simp add: alnum_def in_class_alnum)

lemma denote_separator: "denote separator = {[c] | c. is_separator c}"
  by (simp add: separator_def in_class_separator)

lemma alnum_not_separator: "is_alnum c \<Longrightarrow> \<not> is_separator c"
  by (auto simp: is_alnum_def is_separator_def)

lemma iter_alnum: "w \<in> iter_lang (denote alnum) \<longleftrightarrow> list_all is_alnum w"
proof
  assume "w \<in> iter_lang (denote alnum)"
  then show "list_all is_alnum w"
    by (induction rule: iter_lang.induct) (auto simp: denote_alnum)
next
  assume "list_all is_alnum w"
  then show "w \<in> iter_lang (denote alnum)"
  proof (induction w)
    case Nil
    show ?case by (rule iter_nil)
  next
    case (Cons c w)
    then have "[c] \<in> denote alnum" and "w \<in> iter_lang (denote alnum)"
      by (simp_all add: denote_alnum)
    then have "[c] @ w \<in> iter_lang (denote alnum)" by (rule iter_more)
    then show ?case by simp
  qed
qed

lemma cat_lang_single:
  "x \<in> cat_lang {[c] | c. p c} B \<longleftrightarrow> (\<exists>c w. x = c # w \<and> p c \<and> w \<in> B)"
proof
  assume "x \<in> cat_lang {[c] | c. p c} B"
  then obtain c v where "x = [c] @ v" "p c" "v \<in> B"
    unfolding cat_lang_def by blast
  then show "\<exists>c w. x = c # w \<and> p c \<and> w \<in> B" by simp
next
  assume "\<exists>c w. x = c # w \<and> p c \<and> w \<in> B"
  then obtain c w where "x = [c] @ w" "[c] \<in> {[c] | c. p c}" "w \<in> B" by auto
  then show "x \<in> cat_lang {[c] | c. p c} B" unfolding cat_lang_def by blast
qed

lemma plus_alnum: "w \<in> denote (Plus alnum) \<longleftrightarrow> w \<noteq> [] \<and> list_all is_alnum w"
proof -
  have "w \<in> cat_lang (denote alnum) (iter_lang (denote alnum)) \<longleftrightarrow>
      (\<exists>c u. w = c # u \<and> is_alnum c \<and> u \<in> iter_lang (denote alnum))"
    unfolding denote_alnum by (rule cat_lang_single)
  also have "\<dots> \<longleftrightarrow> w \<noteq> [] \<and> list_all is_alnum w"
    unfolding iter_alnum by (cases w) auto
  finally show ?thesis by simp
qed

lemma groups_not_Nil: "groups s \<noteq> []"
  by (induction s) (auto split: list.splits)

lemma groups_word:
  "list_all (\<lambda>c. \<not> is_separator c) w \<Longrightarrow>
   groups (w @ t) = (w @ hd (groups t)) # tl (groups t)"
proof (induction w)
  case Nil
  then show ?case using groups_not_Nil [of t] by simp
next
  case (Cons c w)
  then show ?case by simp
qed

lemma alnum_word_no_separator:
  "list_all is_alnum w \<Longrightarrow> list_all (\<lambda>c. \<not> is_separator c) w"
  by (induction w) (simp_all add: alnum_not_separator)

text \<open>The words of the separator-group part: a separator, then a non-empty alphanumeric word.\<close>

lemma sep_group:
  "x \<in> denote (Seq separator (Plus alnum)) \<longleftrightarrow>
     (\<exists>c w. x = c # w \<and> is_separator c \<and> w \<noteq> [] \<and> list_all is_alnum w)"
proof -
  have "x \<in> cat_lang (denote separator) (denote (Plus alnum)) \<longleftrightarrow>
      (\<exists>c w. x = c # w \<and> is_separator c \<and> w \<in> denote (Plus alnum))"
    unfolding denote_separator by (rule cat_lang_single)
  then show ?thesis by (simp add: plus_alnum del: denote.simps(4))
qed

lemma tail_groups:
  assumes "t \<in> iter_lang (denote (Seq separator (Plus alnum)))"
    and "list_all is_alnum w"
  shows "groups (w @ t) = w # tl (groups t) \<and> list_all (\<lambda>g. g \<noteq> [] \<and> list_all is_alnum g) (tl (groups t))"
  using assms
proof (induction arbitrary: w rule: iter_lang.induct)
  case iter_nil
  then show ?case using groups_word [of w "[]"] by (simp add: alnum_word_no_separator)
next
  case (iter_more x t)
  from iter_more.hyps(1) obtain c u where x: "x = c # u" "is_separator c" "u \<noteq> []" "list_all is_alnum u"
    unfolding sep_group by blast
  have gx: "groups (x @ t) = [] # groups (u @ t)" using x by simp
  have gu: "groups (u @ t) = u # tl (groups t)"
    and rest: "list_all (\<lambda>g. g \<noteq> [] \<and> list_all is_alnum g) (tl (groups t))"
    using iter_more.IH [OF x(4)] by simp_all
  have "groups (w @ x @ t) = (w @ hd (groups (x @ t))) # tl (groups (x @ t))"
    using iter_more.prems by (intro groups_word alnum_word_no_separator)
  then show ?case using gx gu rest x by simp
qed

lemma id_regex_groups:
  assumes "s \<in> denote id_regex"
  shows "alnum_groups s"
proof -
  from assms obtain w t where s: "s = w @ t" and w: "w \<in> denote (Plus alnum)"
    and t: "t \<in> iter_lang (denote (Seq separator (Plus alnum)))"
    unfolding id_regex_def by (auto simp: cat_lang_def)
  from w have w': "w \<noteq> []" "list_all is_alnum w" unfolding plus_alnum by simp_all
  from tail_groups [OF t w'(2)] w' show ?thesis
    unfolding alnum_groups_def s by simp
qed

lemma groups_id_regex: "alnum_groups s \<Longrightarrow> s \<in> denote id_regex"
proof (induction s rule: length_induct)
  case (1 s)
  let ?X = "denote (Seq separator (Plus alnum))"
  have L: "denote id_regex = cat_lang (denote (Plus alnum)) (iter_lang ?X)"
    by (simp add: id_regex_def)
  show ?case
  proof (cases s)
    case Nil
    then show ?thesis using "1.prems" by (simp add: alnum_groups_def)
  next
    case (Cons c cs)
    obtain g gs where g: "groups cs = g # gs"
      using groups_not_Nil [of cs] by (cases "groups cs") auto
    have nsep: "\<not> is_separator c"
      using "1.prems" Cons by (auto simp: alnum_groups_def)
    then have gs: "groups s = (c # g) # gs" using Cons g by simp
    then have c: "is_alnum c" and galn: "list_all is_alnum g"
      and rest: "list_all (\<lambda>g. g \<noteq> [] \<and> list_all is_alnum g) gs"
      using "1.prems" by (simp_all add: alnum_groups_def)
    show ?thesis
    proof (cases "g = []")
      case False
      then have "alnum_groups cs" using g galn rest by (simp add: alnum_groups_def)
      moreover have "length cs < length s" using Cons by simp
      ultimately have "cs \<in> denote id_regex" using "1.IH" by blast
      then obtain w t where "cs = w @ t" "w \<in> denote (Plus alnum)" "t \<in> iter_lang ?X"
        unfolding L cat_lang_def by blast
      moreover from this c have "c # w \<in> denote (Plus alnum)"
        unfolding plus_alnum by simp
      ultimately have "(c # w) @ t \<in> cat_lang (denote (Plus alnum)) (iter_lang ?X)"
        unfolding cat_lang_def by blast
      then show ?thesis using Cons \<open>cs = w @ t\<close> unfolding L by simp
    next
      case True
      have one: "[c] \<in> denote (Plus alnum)" using c unfolding plus_alnum by simp
      show ?thesis
      proof (cases cs)
        case Nil
        have "[c] @ [] \<in> cat_lang (denote (Plus alnum)) (iter_lang ?X)"
          unfolding cat_lang_def using one iter_nil by blast
        then show ?thesis using Cons Nil unfolding L by simp
      next
        case (Cons c' cs')
        have sep: "is_separator c'"
        proof (rule ccontr)
          assume "\<not> is_separator c'"
          then have "hd (groups cs) \<noteq> []" using Cons groups_not_Nil [of cs']
            by (auto split: list.splits)
          then show False using g True by simp
        qed
        then have "groups cs = [] # groups cs'" using Cons by simp
        then have "alnum_groups cs'" using g rest by (simp add: alnum_groups_def)
        moreover have "length cs' < length s" using Cons \<open>s = c # cs\<close> by simp
        ultimately have "cs' \<in> denote id_regex" using "1.IH" by blast
        then obtain w t where wt: "cs' = w @ t" "w \<in> denote (Plus alnum)" "t \<in> iter_lang ?X"
          unfolding L cat_lang_def by blast
        have "c' # w \<in> ?X" using sep wt(2) unfolding sep_group plus_alnum by simp
        then have "(c' # w) @ t \<in> iter_lang ?X" using wt(3) by (rule iter_more)
        then have "[c] @ ((c' # w) @ t) \<in> cat_lang (denote (Plus alnum)) (iter_lang ?X)"
          unfolding cat_lang_def using one by blast
        then show ?thesis using Cons \<open>s = c # cs\<close> wt(1) unfolding L by simp
      qed
    qed
  qed
qed

section \<open>Facts about \<open>concatArrayBuffers\<close>\<close>

text \<open>
  The copy loop, entered with the first \<open>offset\<close> bytes of \<open>result\<close> written and room
  for all of \<open>bufs\<close>, writes \<open>bufs\<close> one after the other behind them and never throws.
\<close>

lemma copy_loop_concat:
  "offset + sum_list (map length bufs) \<le> length result \<Longrightarrow>
   copy_loop bufs result offset =
     Inr (take offset result @ concat bufs @ drop (offset + sum_list (map length bufs)) result)"
proof (induction bufs arbitrary: result offset)
  case Nil
  then show ?case by simp
next
  case (Cons buf bufs)
  let ?r = "take offset result @ buf @ drop (offset + length buf) result"
  from Cons.prems have fits: "\<not> length result < offset + length buf" by simp
  from Cons.prems have len: "length ?r = length result" by simp
  have "copy_loop (buf # bufs) result offset = copy_loop bufs ?r (offset + length buf)"
    using fits by (simp add: typed_array_set_def)
  also have "\<dots> = Inr (take (offset + length buf) ?r @ concat bufs @
      drop (offset + length buf + sum_list (map length bufs)) ?r)"
    using Cons.prems len by (intro Cons.IH) simp
  also have "take (offset + length buf) ?r = take offset result @ buf"
    using Cons.prems by simp
  also have "drop (offset + length buf + sum_list (map length bufs)) ?r =
      drop (offset + sum_list (map length (buf # bufs))) result"
    using Cons.prems by (simp add: add.assoc add.commute)
  finally show ?case by simp
qed

lemma size_loop_sum: "size_loop bufs size' = size' + sum_list (map length bufs)"
  by (induction bufs arbitrary: size') simp_all

lemma concatArrayBuffers_concat: "concatArrayBuffers bufs = Inr (concat bufs)"
  by (simp add: concatArrayBuffers_def Let_def size_loop_sum copy_loop_concat)

section \<open>The claims\<close>

text \<open>
  C1. For every byte buffer \<open>B\<close>, concatenating the \<open>data\<close> payloads of the records
  returned by \<open>chunk(B)\<close> in ascending order of \<open>n\<close> with \<open>concatArrayBuffers\<close> gives
  back \<open>B\<close>, byte for byte. Ordering the returned records by \<open>n\<close> leaves them as
  they are returned.
\<close>

theorem chunk_roundtrip:
  "concatArrayBuffers (map data (sort_key n (fst (chunk this B)))) = Inr B \<and>
   sort_key n (fst (chunk this B)) = fst (chunk this B) \<and>
   concat (map data (fst (chunk this B))) = B"
proof -
  have "sorted (map n (fst (chunk this B)))" by (simp add: map_n_chunk)
  then have "sort_key n (fst (chunk this B)) = fst (chunk this B)"
    by (rule sort_key_id_if_sorted)
  then show ?thesis by (simp add: concatArrayBuffers_concat concat_chunk_data)
qed

text \<open>
  C2, as the claim states it, fails: on the empty buffer the loop body never runs
  (\<open>0 < 0\<close> is false), so \<open>chunk\<close> returns the empty array, not an array of one record.
\<close>

theorem chunk_empty_counterexample:
  "fst (chunk Util_new []) = [] \<and> length (fst (chunk Util_new [])) \<noteq> 1"
  by (simp add: chunk_closed math_ceil_div_def chunkedMTU_def)

text \<open>
  C2, amended. Fragmenting an empty (zero-length) byte buffer returns the empty
  sequence: no chunk record at all; the total that \<open>chunk\<close> computes for it is
  \<open>ceil(0 / mtu) = 0\<close>.
\<close>

theorem chunk_empty:
  "fst (chunk this []) = [] \<and> math_ceil_div (length ([] :: ArrayBuffer)) chunkedMTU = 0"
  by (simp add: chunk_closed math_ceil_div_def chunkedMTU_def)

text \<open>
  C3. For every buffer \<open>B\<close>, \<open>chunk(B)\<close> returns exactly \<open>ceil(byteLength(B) / 16300)\<close>
  records, and the \<open>total\<close> field of every record is that count. A buffer of 40000
  bytes gives 3 records with \<open>total = 3\<close> and payloads of 16300, 16300 and 7400 bytes.
\<close>

theorem chunk_count_total:
  "length (fst (chunk this B)) = math_ceil_div (length B) chunkedMTU \<and>
   map total (fst (chunk this B)) =
     replicate (math_ceil_div (length B) chunkedMTU) (math_ceil_div (length B) chunkedMTU) \<and>
   math_ceil_div (length B) chunkedMTU = nat \<lceil>real (length B) / 16300\<rceil> \<and>
   (length B = 40000 \<longrightarrow>
      map total (fst (chunk this B)) = [3, 3, 3] \<and>
      map (\<lambda>c. length (data c)) (fst (chunk this B)) = [16300, 16300, 7400])"
proof -
  have real: "math_ceil_div (length B) chunkedMTU = nat \<lceil>real (length B) / 16300\<rceil>"
    using math_ceil_div_real [OF chunkedMTU_pos, of "length B"] by (simp add: chunkedMTU_def)
  have ex: "map total (fst (chunk this B)) = [3, 3, 3] \<and>
      map (\<lambda>c. length (data c)) (fst (chunk this B)) = [16300, 16300, 7400]"
    if "length B = 40000"
  proof -
    have k: "math_ceil_div (length B) chunkedMTU = 3"
      using that by (simp add: math_ceil_div_def chunkedMTU_def)
    have "map (\<lambda>c. length (data c)) (fst (chunk this B)) = map length (map data (fst (chunk this B)))"
      by (simp add: comp_def)
    also have "\<dots> = [16300, 16300, 7400]"
      unfolding map_data_chunk k upt_3 using that by (simp add: chunkedMTU_def)
    finally show ?thesis
      unfolding map_total_chunk k by (simp add: numeral_3_eq_3)
  qed
  show ?thesis using real ex by (simp add: length_chunk map_total_chunk)
qed

text \<open>C3 at a buffer of 40000 zero bytes, on a fresh instance.\<close>

theorem chunk_count_total_witness:
  "length (fst (chunk Util_new (replicate 40000 0))) = 3 \<and>
   map total (fst (chunk Util_new (replicate 40000 0))) = [3, 3, 3] \<and>
   map (\<lambda>c. length (data c)) (fst (chunk Util_new (replicate 40000 0))) = [16300, 16300, 7400]"
proof -
  have len: "length (replicate 40000 (0 :: byte)) = 40000" by simp
  from chunk_count_total [of Util_new "replicate 40000 0"] len
  have "length (fst (chunk Util_new (replicate 40000 0))) = nat \<lceil>real 40000 / 16300\<rceil>"
    and "map total (fst (chunk Util_new (replicate 40000 0))) = [3, 3, 3]"
    and "map (\<lambda>c. length (data c)) (fst (chunk Util_new (replicate 40000 0))) = [16300, 16300, 7400]"
    by (simp_all add: numeral_3_eq_3)
  then show ?thesis by simp
qed

text \<open>
  C5. For a buffer of \<open>N \<ge> 0\<close> bytes the sequence numbers (\<open>n\<close>) of the records are
  \<open>0, 1, ..., ceil(N / mtu) - 1\<close> in this order: the \<open>i\<close>-th record has \<open>n = i\<close>, the set
  of sequence numbers is \<open>{0, ..., ceil(N / mtu) - 1}\<close>, and none occurs twice.
\<close>

theorem chunk_sequence_numbers:
  "map n (fst (chunk this B)) = [0 ..< math_ceil_div (length B) chunkedMTU] \<and>
   set (map n (fst (chunk this B))) = {0 ..< math_ceil_div (length B) chunkedMTU} \<and>
   distinct (map n (fst (chunk this B))) \<and>
   (\<forall>i < length (fst (chunk this B)). n (fst (chunk this B) ! i) = i)"
proof -
  have "n (fst (chunk this B) ! i) = i" if "i < length (fst (chunk this B))" for i
  proof -
    have "n (fst (chunk this B) ! i) = map n (fst (chunk this B)) ! i"
      using that by simp
    also have "\<dots> = i" using that unfolding map_n_chunk by (simp add: length_chunk)
    finally show ?thesis .
  qed
  then show ?thesis by (simp add: map_n_chunk)
qed

text \<open>C5 at a buffer of 40000 zero bytes: the sequence numbers are 0, 1, 2.\<close>

theorem chunk_sequence_numbers_witness:
  "map n (fst (chunk Util_new (replicate 40000 0))) = [0, 1, 2] \<and>
   n (fst (chunk Util_new (replicate 40000 0)) ! 2) = 2"
proof -
  have k: "math_ceil_div (length (replicate 40000 (0 :: byte))) chunkedMTU = 3"
    by (simp add: math_ceil_div_def chunkedMTU_def)
  have len: "(2 :: nat) < length (fst (chunk Util_new (replicate 40000 0)))"
    by (simp add: length_chunk math_ceil_div_def chunkedMTU_def)
  show ?thesis
    using chunk_sequence_numbers [of Util_new "replicate 40000 0"] len
    unfolding k upt_3 by simp
qed


text \<open>
  C4, as the claim states it, fails: \<open>chunk\<close> has no \<open>mtu\<close> parameter and no failure.
  A call that passes 0 (or a negative number) as \<open>mtu\<close> returns the chunks, the same
  ones as with any other value.
\<close>

theorem chunk_with_mtu_counterexample:
  "chunk_with_mtu Util_new [1, 2, 3] 0 \<noteq> Inl InvalidConfiguration \<and>
   chunk_with_mtu Util_new [1, 2, 3] (- 1) = chunk_with_mtu Util_new [1, 2, 3] 16300"
  by (simp add: chunk_with_mtu_def)

text \<open>
  C4, amended. \<open>chunk\<close> takes the buffer only: it fragments at the fixed positive
  \<open>chunkedMTU = 16300\<close> whatever \<open>mtu\<close> a call passes, has no \<open>InvalidConfiguration\<close>
  failure, and succeeds with no error on every buffer of non-negative length.
\<close>

theorem chunk_never_fails:
  "chunk_with_mtu this B mtu = Inr (chunk this B) \<and>
   chunk_with_mtu this B mtu \<noteq> Inl InvalidConfiguration \<and>
   0 < chunkedMTU \<and>
   length (fst (chunk this B)) = math_ceil_div (length B) 16300"
  by (simp add: chunk_with_mtu_def length_chunk chunkedMTU_def)

text \<open>
  C6. For every buffer, the payloads are the consecutive slices
  \<open>[j * mtu, min((j + 1) * mtu, byteLength))\<close> of the input for \<open>j = 0, 1, ...\<close>, in this
  order (contiguous, no overlap, no gap): every payload has at most \<open>mtu\<close> bytes, every
  payload but the last exactly \<open>mtu\<close>, the last at least one byte; the lengths sum to
  the length of the buffer and the payloads concatenate to the buffer.
\<close>

theorem chunk_payloads:
  "map data (fst (chunk this B)) =
     map (\<lambda>j. take chunkedMTU (drop (j * chunkedMTU) B))
       [0 ..< math_ceil_div (length B) chunkedMTU] \<and>
   (\<forall>c \<in> set (fst (chunk this B)). length (data c) \<le> chunkedMTU) \<and>
   (\<forall>i. Suc i < length (fst (chunk this B)) \<longrightarrow>
      length (data (fst (chunk this B) ! i)) = chunkedMTU) \<and>
   (fst (chunk this B) \<noteq> [] \<longrightarrow> 0 < length (data (last (fst (chunk this B))))) \<and>
   sum_list (map (\<lambda>c. length (data c)) (fst (chunk this B))) = length B \<and>
   concat (map data (fst (chunk this B))) = B"
proof (intro conjI allI ballI impI)
  show "map data (fst (chunk this B)) =
     map (\<lambda>j. take chunkedMTU (drop (j * chunkedMTU) B))
       [0 ..< math_ceil_div (length B) chunkedMTU]"
    by (rule map_data_chunk)
qed (simp_all add: payload_length_le payload_length_full payload_length_last
    payload_length_sum concat_chunk_data del: length_greater_0_conv)

text \<open>C6 at a buffer of 40000 zero bytes (three payloads).\<close>

theorem chunk_payloads_witness:
  "length (data (fst (chunk Util_new (replicate 40000 0)) ! 0)) = 16300 \<and>
   length (data (fst (chunk Util_new (replicate 40000 0)) ! 2)) \<le> 16300 \<and>
   0 < length (data (last (fst (chunk Util_new (replicate 40000 0))))) \<and>
   sum_list (map (\<lambda>c. length (data c)) (fst (chunk Util_new (replicate 40000 0)))) = 40000"
proof -
  let ?cs = "fst (chunk Util_new (replicate 40000 0))"
  have len: "length ?cs = 3"
    by (simp add: length_chunk math_ceil_div_def chunkedMTU_def)
  then have a: "Suc 0 < length ?cs" and b: "?cs ! 2 \<in> set ?cs" and c: "?cs \<noteq> []"
    by auto
  from chunk_payloads [of Util_new "replicate 40000 0"] a b c show ?thesis
    by (simp add: chunkedMTU_def)
qed

text \<open>
  C7, as the claim states it, fails at the end of the range in which a JavaScript
  number counts: after \<open>2^53 - 1\<close> calls on a fresh instance the counter is \<open>2^53\<close>;
  call number \<open>2^53\<close> stamps this value, \<open>_dataCount++\<close> leaves the counter there, and
  call number \<open>2^53 + 1\<close> stamps the same transfer id again.
\<close>

theorem chunk_transfer_ids_counterexample:
  "map (map peerData)
     (drop (2 ^ 53 - 1) (fst (chunk_calls Util_new (replicate (2 ^ 53 - 1) [] @ [[0], [0]])))) =
     [[2 ^ 53], [2 ^ 53]] \<and>
   dataCount (snd (chunk \<lparr>dataCount = 2 ^ 53\<rparr> [0])) = 2 ^ 53"
proof -
  define N :: nat where "N = 2 ^ 53 - 1"
  define pre :: "ArrayBuffer list" where "pre = replicate N []"
  let ?u = "snd (chunk_calls Util_new pre)"
  have len: "length pre = N" by (simp add: pre_def)
  have "dataCount ?u = min (2 ^ 53) (dataCount Util_new + length pre)"
    by (rule dataCount_chunk_calls) (simp add: Util_new_def)
  then have u: "dataCount ?u = 2 ^ 53"
    unfolding len by (simp add: Util_new_def N_def)
  have "drop N (fst (chunk_calls Util_new (pre @ [[0], [0]]))) = fst (chunk_calls ?u [[0], [0]])"
    unfolding chunk_calls_append using len by (simp add: length_chunk_calls)
  then have "map (map peerData) (drop N (fst (chunk_calls Util_new (pre @ [[0], [0]])))) =
      [[2 ^ 53], [2 ^ 53]]"
    using chunk_calls_stuck [OF u] by (simp only:)
  moreover have "dataCount (snd (chunk \<lparr>dataCount = 2 ^ 53\<rparr> [0])) = 2 ^ 53"
    by (simp add: dataCount_chunk js_increment_def)
  ultimately show ?thesis unfolding pre_def N_def by (rule conjI)
qed

text \<open>
  C7, amended. The counter starts at 1. All records of one call carry the value of the
  counter at the call. A call that starts with the counter below \<open>2^53\<close> increments it
  by exactly one (whatever the number of records), so a sequence of calls all of
  which start below \<open>2^53\<close> advances the counter by the number of calls. In a sequence
  of calls of which only the last may start at \<open>2^53\<close> (on a fresh instance: the first
  \<open>2^53\<close> calls), call number \<open>j\<close>, counted from 0, stamps the id \<open>dataCount + j\<close>: the
  ids of successive calls increase strictly and none is used twice.
\<close>

theorem chunk_transfer_ids:
  "dataCount Util_new = 1 \<and>
   map peerData (fst (chunk this B)) =
     replicate (math_ceil_div (length B) chunkedMTU) (dataCount this) \<and>
   (dataCount this < 2 ^ 53 \<longrightarrow> dataCount (snd (chunk this B)) = dataCount this + 1) \<and>
   (dataCount this + length Bs \<le> 2 ^ 53 \<longrightarrow>
      dataCount (snd (chunk_calls this Bs)) = dataCount this + length Bs) \<and>
   (dataCount this + length Bs \<le> 2 ^ 53 + 1 \<longrightarrow>
      (\<forall>j < length Bs. \<forall>c \<in> set (fst (chunk_calls this Bs) ! j).
         peerData c = dataCount this + j) \<and>
      (\<forall>i j. i < j \<and> j < length Bs \<longrightarrow>
         (\<forall>c \<in> set (fst (chunk_calls this Bs) ! i).
          \<forall>d \<in> set (fst (chunk_calls this Bs) ! j). peerData c < peerData d)))"
proof (intro conjI impI allI ballI)
  show "dataCount Util_new = 1" by (simp add: Util_new_def)
  show "map peerData (fst (chunk this B)) =
     replicate (math_ceil_div (length B) chunkedMTU) (dataCount this)"
    by (rule map_peerData_chunk)
  show "dataCount (snd (chunk this B)) = dataCount this + 1" if "dataCount this < 2 ^ 53"
    using that by (simp add: dataCount_chunk js_increment_def)
  show "dataCount (snd (chunk_calls this Bs)) = dataCount this + length Bs"
    if "dataCount this + length Bs \<le> 2 ^ 53"
    using that by (simp add: dataCount_chunk_calls)
next
  assume b: "dataCount this + length Bs \<le> 2 ^ 53 + 1"
  show "peerData c = dataCount this + j"
    if "j < length Bs" "c \<in> set (fst (chunk_calls this Bs) ! j)" for j c
    using b that by (rule chunk_calls_ids)
  show "peerData c < peerData d"
    if "i < j \<and> j < length Bs" "c \<in> set (fst (chunk_calls this Bs) ! i)"
      "d \<in> set (fst (chunk_calls this Bs) ! j)" for i j c d
  proof -
    from that have "peerData c = dataCount this + i" "peerData d = dataCount this + j"
      using b by (auto intro: chunk_calls_ids)
    then show ?thesis using that by simp
  qed
qed

text \<open>
  C7 on a fresh instance: a call that returns three records advances the counter from
  1 to 2, and the third of three calls stamps the id 3. At the end of the range: of two
  calls on an instance whose counter is \<open>2^53 - 1\<close>, the second stamps the id \<open>2^53\<close>,
  above the id of the first.
\<close>

theorem chunk_transfer_ids_witness:
  "dataCount (snd (chunk Util_new (replicate 40000 0))) = 2 \<and>
   map peerData (fst (chunk Util_new (replicate 40000 0))) = [1, 1, 1] \<and>
   dataCount (snd (chunk_calls Util_new [replicate 40000 0, [], [7]])) = 4 \<and>
   peerData (hd (fst (chunk_calls Util_new [replicate 40000 0, [], [7]]) ! 2)) = 3 \<and>
   peerData (hd (fst (chunk_calls Util_new [replicate 40000 0, [], [7]]) ! 0)) <
     peerData (hd (fst (chunk_calls Util_new [replicate 40000 0, [], [7]]) ! 2)) \<and>
   peerData (hd (fst (chunk_calls \<lparr>dataCount = 2 ^ 53 - 1\<rparr> [[0], [0]]) ! 1)) = 2 ^ 53 \<and>
   peerData (hd (fst (chunk_calls \<lparr>dataCount = 2 ^ 53 - 1\<rparr> [[0], [0]]) ! 0)) <
     peerData (hd (fst (chunk_calls \<lparr>dataCount = 2 ^ 53 - 1\<rparr> [[0], [0]]) ! 1))"
proof -
  let ?B = "replicate 40000 (0 :: byte)"
  let ?Bs = "[?B, [], [7 :: byte]]"
  let ?css = "fst (chunk_calls Util_new ?Bs)"
  have one: "dataCount Util_new = 1" by (simp add: Util_new_def)
  have k: "math_ceil_div (length ?B) chunkedMTU = 3"
    by (simp add: math_ceil_div_def chunkedMTU_def)
  have small: "dataCount Util_new < 2 ^ 53" "dataCount Util_new + length ?Bs \<le> 2 ^ 53"
    "dataCount Util_new + length ?Bs \<le> 2 ^ 53 + 1"
    by (simp_all add: one)
  have first: "?css ! 0 = fst (chunk Util_new ?B)"
    by (simp add: split_beta)
  have third: "?css ! 2 = fst (chunk (snd (chunk (snd (chunk Util_new ?B)) [])) [7])"
    by (simp add: split_beta)
  have "length (?css ! 0) = 3" unfolding first length_chunk k ..
  then have in0: "hd (?css ! 0) \<in> set (?css ! 0)" by (intro hd_in_set) auto
  have "length (?css ! 2) = 1"
    unfolding third length_chunk by (simp add: math_ceil_div_def chunkedMTU_def)
  then have in2: "hd (?css ! 2) \<in> set (?css ! 2)" by (intro hd_in_set) auto
  have idx: "(0 :: nat) < 2 \<and> (2 :: nat) < length ?Bs" "(2 :: nat) < length ?Bs" by simp_all
  from chunk_transfer_ids [of Util_new ?B ?Bs] small
  have a: "map peerData (fst (chunk Util_new ?B)) = replicate 3 1"
    and b: "dataCount (snd (chunk Util_new ?B)) = 2"
    and c: "dataCount (snd (chunk_calls Util_new ?Bs)) = 4"
    and d: "\<forall>j < length ?Bs. \<forall>c \<in> set (?css ! j). peerData c = dataCount Util_new + j"
    and e: "\<forall>i j. i < j \<and> j < length ?Bs \<longrightarrow>
         (\<forall>c \<in> set (?css ! i). \<forall>d \<in> set (?css ! j). peerData c < peerData d)"
    unfolding k one by simp_all
  have "peerData (hd (?css ! 2)) = dataCount Util_new + 2"
    by (rule d [rule_format, OF idx(2) in2])
  then have f: "peerData (hd (?css ! 2)) = 3" unfolding one by simp
  have g: "peerData (hd (?css ! 0)) < peerData (hd (?css ! 2))"
    by (rule e [rule_format, OF idx(1) in0 in2])
  have a': "map peerData (fst (chunk Util_new ?B)) = [1, 1, 1]"
    unfolding a by (simp add: numeral_3_eq_3)
  define u :: Util where "u = \<lparr>dataCount = 2 ^ 53 - 1\<rparr>"
  let ?Cs = "[[0], [0 :: byte]]"
  let ?dss = "fst (chunk_calls u ?Cs)"
  have du: "dataCount u = 2 ^ 53 - 1" by (simp add: u_def)
  have edge: "dataCount u + length ?Cs \<le> 2 ^ 53 + 1" unfolding du by simp
  have k1: "math_ceil_div (Suc 0) chunkedMTU = Suc 0"
    by (simp add: math_ceil_div_def chunkedMTU_def)
  have "length (?dss ! 0) = 1" by (simp add: split_beta length_chunk k1)
  then have jn0: "hd (?dss ! 0) \<in> set (?dss ! 0)" by (intro hd_in_set) auto
  have "length (?dss ! 1) = 1" by (simp add: split_beta length_chunk k1)
  then have jn1: "hd (?dss ! 1) \<in> set (?dss ! 1)" by (intro hd_in_set) auto
  have jdx: "(0 :: nat) < 1 \<and> (1 :: nat) < length ?Cs" "(1 :: nat) < length ?Cs" by simp_all
  note ids = chunk_transfer_ids [of u ?B ?Cs, THEN conjunct2, THEN conjunct2, THEN conjunct2,
      THEN conjunct2, THEN mp, OF edge]
  have d': "\<forall>j < length ?Cs. \<forall>c \<in> set (?dss ! j). peerData c = dataCount u + j"
    by (rule ids [THEN conjunct1])
  have e': "\<forall>i j. i < j \<and> j < length ?Cs \<longrightarrow>
         (\<forall>c \<in> set (?dss ! i). \<forall>d \<in> set (?dss ! j). peerData c < peerData d)"
    by (rule ids [THEN conjunct2])
  have "peerData (hd (?dss ! 1)) = dataCount u + 1"
    by (rule d' [rule_format, OF jdx(2) jn1])
  then have f': "peerData (hd (?dss ! 1)) = 2 ^ 53" unfolding du by simp
  have g': "peerData (hd (?dss ! 0)) < peerData (hd (?dss ! 1))"
    by (rule e' [rule_format, OF jdx(1) jn0 jn1])
  show ?thesis using a' b c f g f' g' unfolding u_def by (intro conjI)
qed

text \<open>
  C9. \<open>validateId\<close> returns true for the empty string; for a non-empty string it
  returns true exactly when the string consists of groups of ASCII letters and digits,
  each non-empty, separated by single spaces, underscores or hyphens, that is, when
  it is in the language of \<open>[A-Za-z0-9]+(?:[ _-][A-Za-z0-9]+)*\<close>. (The description in
  words does not hold of the empty string, so the first disjunct is the only way in
  for it.)
\<close>

theorem validateId_groups:
  "validateId [] \<and>
   (validateId s \<longleftrightarrow> s = [] \<or> alnum_groups s) \<and>
   (validateId s \<longleftrightarrow> s = [] \<or> s \<in> denote id_regex) \<and>
   \<not> alnum_groups []"
proof -
  have "validateId s \<longleftrightarrow> s = [] \<or> s \<in> denote id_regex"
    unfolding validateId_def regex_test_denote ..
  moreover have "s \<in> denote id_regex \<longleftrightarrow> alnum_groups s"
    using id_regex_groups groups_id_regex by blast
  ultimately show ?thesis by (simp add: validateId_def alnum_groups_def)
qed

text \<open>\<open>validateId\<close> on a few identifiers.\<close>

lemma validateId_examples:
  "validateId (js_str ''abc-12 x_y'') \<and> \<not> validateId (js_str ''a--b'') \<and>
   \<not> validateId (js_str ''-a'') \<and> \<not> validateId (js_str ''a_'') \<and>
   \<not> validateId (js_str ''a!b'')"
  by (simp add: validateId_def regex_test_def id_regex_def alnum_def separator_def
      in_class_def js_str_def)

text \<open>
  C10. For every string \<open>s\<close>, \<open>binaryStringToArrayBuffer\<close> returns a buffer of as many
  bytes as \<open>s\<close> has code units, and its \<open>i\<close>-th byte is the code unit of \<open>s\<close> at \<open>i\<close>
  masked with \<open>0xff\<close>, which is the code unit modulo 256.
\<close>

theorem binaryStringToArrayBuffer_bytes:
  "length (binaryStringToArrayBuffer s) = length s \<and>
   map unat (binaryStringToArrayBuffer s) = map (\<lambda>c. unat c mod 256) s \<and>
   (\<forall>i < length s. binaryStringToArrayBuffer s ! i = ucast (s ! i AND 0xff) \<and>
      unat (binaryStringToArrayBuffer s ! i) = unat (s ! i) mod 256)"
  by (simp add: binaryStringToArrayBuffer_map low_byte_unat comp_def)

text \<open>C10 on the code units \<open>0x41, 0x1234, 0xff, 0x100\<close>.\<close>

theorem binaryStringToArrayBuffer_bytes_witness:
  "length (binaryStringToArrayBuffer [0x41, 0x1234, 0xff, 0x100]) = 4 \<and>
   map unat (binaryStringToArrayBuffer [0x41, 0x1234, 0xff, 0x100]) = [0x41, 0x34, 0xff, 0] \<and>
   unat (binaryStringToArrayBuffer [0x41, 0x1234, 0xff, 0x100] ! 1) = 0x34"
proof -
  have i: "(1 :: nat) < length [0x41, 0x1234, 0xff, 0x100 :: 16 word]" by simp
  show ?thesis
    using binaryStringToArrayBuffer_bytes [of "[0x41, 0x1234, 0xff, 0x100]"] i by simp
qed

end
